theory Spec2Isabelle
  imports Main "HOL-Library.Word"
begin

unbundle bit_operations_syntax

section \<open>libdtfs: a device-tree filesystem parser\<close>

text \<open>
  The development embeds the functions of \<^verbatim>\<open>libdtfs.c\<close> and \<^verbatim>\<open>libdtfs.h\<close>.

  \<^item> A property buffer is the pair of a pointer \<^verbatim>\<open>data\<close> and a length \<^verbatim>\<open>len\<close>. The
    object \<^verbatim>\<open>data\<close> points to is a list of bytes; \<^verbatim>\<open>len\<close> is passed beside it, as in C.
    The statements about a buffer \<open>b\<close> of length \<open>l\<close> are statements about the call with
    \<open>data = b\<close> and \<open>len = length b\<close>.
  \<^item> Reading outside the object, or through a null pointer, is undefined behaviour in C.
    The model makes it a value: every function returns \<open>Undef\<close> there, and \<open>Ret v\<close> when it
    returns \<open>v\<close>.
  \<^item> A pointer that may be null is an \<open>option\<close>; an output pointer that is only tested
    and written is a \<open>bool\<close> (is it non-null) and the value written is part of the result.
  \<^item> Return codes are the \<^verbatim>\<open>int\<close> values of the header's enumerations.
  \<^item> Integer types are those of a 64-bit platform with 32-bit \<^verbatim>\<open>int\<close> and
    \<^verbatim>\<open>unsigned\<close>. A \<^verbatim>\<open>size_t\<close> or \<^verbatim>\<open>off_t\<close> holds the size of every object and file,
    and offsets into them: these are numbers (\<open>nat\<close>, \<open>int\<close>). Where the code narrows one,
    the narrowing is written out: \<open>int_of_size_t\<close> for the \<^verbatim>\<open>int len\<close> parameter of
    \<^verbatim>\<open>is_printable_string\<close>, \<open>unsigned_of_size_t\<close> for what is stored in
    \<^verbatim>\<open>unsigned *count\<close>, and \<^verbatim>\<open>unsigned\<close> increments wrap at \<open>2^32\<close>.
  \<^item> Diagnostics printed to \<^verbatim>\<open>stderr\<close> are not modelled.
\<close>

subsection \<open>Outcomes, bytes, the header's constants\<close>

datatype 'a exec = Undef | Ret 'a

type_synonym byte = "8 word"

definition DTFS_PATH_ERROR :: int where "DTFS_PATH_ERROR = - 1"
definition DTFS_PATH_NODE :: int where "DTFS_PATH_NODE = 0"
definition DTFS_PATH_PROPERTY :: int where "DTFS_PATH_PROPERTY = 1"

definition DTFS_PROP_SIMPLE :: int where "DTFS_PROP_SIMPLE = 0"
definition DTFS_PROP_STRINGS :: int where "DTFS_PROP_STRINGS = 1"
definition DTFS_PROP_WORDS :: int where "DTFS_PROP_WORDS = 2"
definition DTFS_PROP_BYTES :: int where "DTFS_PROP_BYTES = 3"

text \<open>\<^verbatim>\<open>data[i]\<close>: the byte at offset \<open>i\<close> of the object, undefined outside it.\<close>

definition rd :: "byte list \<Rightarrow> nat \<Rightarrow> byte exec" where
  "rd d i = (if i < length d then Ret (d ! i) else Undef)"

text \<open>The same with a signed index: a negative one is before the object.\<close>

definition rd_int :: "byte list \<Rightarrow> int \<Rightarrow> byte exec" where
  "rd_int d i = (if i < 0 then Undef else rd d (nat i))"

text \<open>
  The conversions of a \<^verbatim>\<open>size_t\<close> to \<^verbatim>\<open>int\<close> (the low 32 bits, read as two's
  complement) and to \<^verbatim>\<open>unsigned\<close> (the low 32 bits), and \<^verbatim>\<open>+= 1\<close> on an
  \<^verbatim>\<open>unsigned\<close>.
\<close>

definition int_of_size_t :: "nat \<Rightarrow> int" where
  "int_of_size_t n =
     (let m = int (n mod 2 ^ 32) in if m < 2 ^ 31 then m else m - 2 ^ 32)"

definition unsigned_of_size_t :: "nat \<Rightarrow> nat" where
  "unsigned_of_size_t n = n mod 2 ^ 32"

definition unsigned_inc :: "nat \<Rightarrow> nat" where
  "unsigned_inc u = (u + 1) mod 2 ^ 32"

text \<open>
  \<^verbatim>\<open>isprint\<close> of the C library in the "C" locale (the library never sets another one):
  the characters from space to tilde.
\<close>

definition isprint :: "byte \<Rightarrow> bool" where
  "isprint c = (0x20 \<le> c \<and> c \<le> 0x7E)"

text \<open>
  \<^verbatim>\<open>strlen\<close> of the C library, on the memory from the pointer on: the number of bytes
  before the first NUL, undefined when the object ends before one.
\<close>

primrec strlen :: "byte list \<Rightarrow> nat exec" where
  "strlen [] = Undef"
| "strlen (c # cs) =
     (if c = 0 then Ret 0
      else (case strlen cs of Undef \<Rightarrow> Undef | Ret k \<Rightarrow> Ret (Suc k)))"

subsection \<open>\<^verbatim>\<open>is_printable_string\<close>\<close>

text \<open>
  The inner loop \<^verbatim>\<open>while (s < se && *s && isprint((unsigned char)*s)) s++;\<close>
  on offsets from \<^verbatim>\<open>data\<close>; it returns the final \<^verbatim>\<open>s\<close>.
\<close>

function scan_run :: "byte list \<Rightarrow> nat \<Rightarrow> nat \<Rightarrow> nat exec" where
  "scan_run d se s =
     (if s < se then
        (case rd d s of
           Undef \<Rightarrow> Undef
         | Ret c \<Rightarrow> if c \<noteq> 0 \<and> isprint c then scan_run d se (s + 1) else Ret s)
      else Ret s)"
  by pat_completeness auto
termination
  by (relation "measure (\<lambda>(d, se, s). se - s)") auto

lemma scan_run_ge: "scan_run d se s = Ret s' \<Longrightarrow> s \<le> s'"
proof (induction d se s rule: scan_run.induct)
  case (1 d se s)
  show ?case
  proof (cases "s < se")
    case False
    with "1.prems" show ?thesis by simp
  next
    case True
    show ?thesis
    proof (cases "rd d s")
      case Undef
      with True "1.prems" show ?thesis by simp
    next
      case (Ret c)
      show ?thesis
      proof (cases "c \<noteq> 0 \<and> isprint c")
        case False
        with True Ret "1.prems" show ?thesis by auto
      next
        case go: True
        with True Ret "1.prems" have "scan_run d se (s + 1) = Ret s'" by simp
        from "1.IH" [OF True Ret go this] show ?thesis by simp
      qed
    qed
  qed
qed

text \<open>
  The outer loop \<^verbatim>\<open>while (s < se) { ss = s; ...; if (*s != '\0' || s == ss) return 0; s++; }\<close>
  followed by \<^verbatim>\<open>return 1\<close>.
\<close>

function printable_loop :: "byte list \<Rightarrow> nat \<Rightarrow> nat \<Rightarrow> nat exec" where
  "printable_loop d se s =
     (if s < se then
        (case scan_run d se s of
           Undef \<Rightarrow> Undef
         | Ret s' \<Rightarrow>
             (case rd d s' of
                Undef \<Rightarrow> Undef
              | Ret c \<Rightarrow> if c \<noteq> 0 \<or> s' = s then Ret 0 else printable_loop d se (s' + 1)))
      else Ret 1)"
  by pat_completeness auto
termination
proof (relation "measure (\<lambda>(d, se, s). se - s)")
  show "wf (measure (\<lambda>(d, se, s). se - s))" by simp
next
  fix d :: "byte list" and se s s' :: nat and c :: byte
  assume "s < se" and scan: "scan_run d se s = Ret s'" and "\<not> (c \<noteq> 0 \<or> s' = s)"
  from scan have "s \<le> s'" by (rule scan_run_ge)
  with \<open>s < se\<close> \<open>\<not> (c \<noteq> 0 \<or> s' = s)\<close>
  show "((d, se, s' + 1), (d, se, s)) \<in> measure (\<lambda>(d, se, s). se - s)" by auto
qed

text \<open>
  \<^verbatim>\<open>len\<close> is an \<^verbatim>\<open>int\<close>. \<^verbatim>\<open>s[len - 1]\<close> is read first: with a negative \<^verbatim>\<open>len\<close> that
  is a read before the object. Once the read has succeeded \<^verbatim>\<open>len\<close> is positive and
  \<^verbatim>\<open>se = s + len\<close> is the offset \<^verbatim>\<open>len\<close>.
\<close>

definition is_printable_string :: "byte list \<Rightarrow> int \<Rightarrow> nat exec" where
  "is_printable_string d len =
     (if len = 0 then Ret 0
      else (case rd_int d (len - 1) of
              Undef \<Rightarrow> Undef
            | Ret c \<Rightarrow> if c \<noteq> 0 then Ret 0 else printable_loop d (nat len) 0))"

subsection \<open>\<^verbatim>\<open>dtfs_get_prop_type\<close>\<close>

text \<open>
  The counting loop \<^verbatim>\<open>do { s += strlen(s) + 1; *count += 1; } while (s < (d + len));\<close>
  with \<^verbatim>\<open>s\<close> as an offset from \<^verbatim>\<open>d\<close>; it returns the final \<^verbatim>\<open>*count\<close>, an
  \<^verbatim>\<open>unsigned\<close>.
\<close>

function count_loop :: "byte list \<Rightarrow> nat \<Rightarrow> nat \<Rightarrow> nat \<Rightarrow> nat exec" where
  "count_loop d len s count =
     (case strlen (drop s d) of
        Undef \<Rightarrow> Undef
      | Ret k \<Rightarrow>
          (if s + k + 1 < len then count_loop d len (s + k + 1) (unsigned_inc count)
           else Ret (unsigned_inc count)))"
  by pat_completeness auto
termination
  by (relation "measure (\<lambda>(d, len, s, count). len - s)") auto

text \<open>
  The result is the returned tag and the value written to \<^verbatim>\<open>*count\<close>, \<open>None\<close> when
  nothing is written (\<^verbatim>\<open>count\<close> is null, or the branch does not write). \<^verbatim>\<open>len\<close> is
  a \<^verbatim>\<open>size_t\<close>; it is narrowed where it is passed to \<^verbatim>\<open>is_printable_string\<close> and where
  it is stored in \<^verbatim>\<open>*count\<close>.
\<close>

definition dtfs_get_prop_type :: "byte list \<Rightarrow> nat \<Rightarrow> bool \<Rightarrow> (int \<times> nat option) exec" where
  "dtfs_get_prop_type d len count =
     (if len = 0 then Ret (DTFS_PROP_SIMPLE, None)
      else (case is_printable_string d (int_of_size_t len) of
              Undef \<Rightarrow> Undef
            | Ret p \<Rightarrow>
                if p \<noteq> 0 then
                  (if count then
                     (case count_loop d len 0 0 of
                        Undef \<Rightarrow> Undef
                      | Ret k \<Rightarrow> Ret (DTFS_PROP_STRINGS, Some k))
                   else Ret (DTFS_PROP_STRINGS, None))
                else if len mod 4 = 0 then
                  Ret (DTFS_PROP_WORDS,
                       if count then Some (unsigned_of_size_t (len div 4)) else None)
                else Ret (DTFS_PROP_BYTES,
                          if count then Some (unsigned_of_size_t len) else None)))"


subsection \<open>\<^verbatim>\<open>dtfs_word_get\<close>\<close>

text \<open>
  \<^verbatim>\<open>w[n]\<close> reads the \<^verbatim>\<open>uint32_t\<close> object stored in the four bytes at offset \<open>4n\<close>; its
  value depends on the byte order of the host. \<^verbatim>\<open>ntohl\<close> of the C library converts from
  network (big-endian) order to the host's: the identity on a big-endian host, the byte
  swap on a little-endian one (the byte of weight \<open>2^(8k)\<close> goes to weight \<open>2^(8(3-k))\<close>).
\<close>

datatype endian = LittleEndian | BigEndian

type_synonym u32 = "32 word"

definition u32_of_bytes :: "endian \<Rightarrow> byte \<Rightarrow> byte \<Rightarrow> byte \<Rightarrow> byte \<Rightarrow> u32" where
  "u32_of_bytes host b0 b1 b2 b3 =
     (case host of
        BigEndian \<Rightarrow>
          push_bit 24 (ucast b0) OR push_bit 16 (ucast b1) OR push_bit 8 (ucast b2) OR ucast b3
      | LittleEndian \<Rightarrow>
          ucast b0 OR push_bit 8 (ucast b1) OR push_bit 16 (ucast b2) OR push_bit 24 (ucast b3))"

definition load_u32 :: "endian \<Rightarrow> byte list \<Rightarrow> nat \<Rightarrow> u32 exec" where
  "load_u32 host d n =
     (if 4 * n + 4 \<le> length d
      then Ret (u32_of_bytes host (d ! (4 * n)) (d ! (4 * n + 1)) (d ! (4 * n + 2)) (d ! (4 * n + 3)))
      else Undef)"

definition bswap_32 :: "u32 \<Rightarrow> u32" where
  "bswap_32 x =
     push_bit 24 (ucast (ucast x :: byte)) OR
     push_bit 16 (ucast (ucast (drop_bit 8 x) :: byte)) OR
     push_bit 8 (ucast (ucast (drop_bit 16 x) :: byte)) OR
     ucast (ucast (drop_bit 24 x) :: byte)"

definition ntohl :: "endian \<Rightarrow> u32 \<Rightarrow> u32" where
  "ntohl host w = (case host of BigEndian \<Rightarrow> w | LittleEndian \<Rightarrow> bswap_32 w)"

text \<open>The result is the return code and the value written to \<^verbatim>\<open>*word\<close>.\<close>

definition dtfs_word_get ::
  "endian \<Rightarrow> byte list \<Rightarrow> nat \<Rightarrow> nat \<Rightarrow> bool \<Rightarrow> (int \<times> u32 option) exec" where
  "dtfs_word_get host d len n word =
     (if \<not> word then Ret (- 1, None)
      else (case dtfs_get_prop_type d len False of
              Undef \<Rightarrow> Undef
            | Ret (t, _) \<Rightarrow>
                if t \<noteq> DTFS_PROP_WORDS then Ret (- 1, None)
                else if n * 4 > len then Ret (- 1, None)
                else (case load_u32 host d n of
                        Undef \<Rightarrow> Undef
                      | Ret w \<Rightarrow> Ret (0, Some (ntohl host w)))))"

subsection \<open>\<^verbatim>\<open>dtfs_string_get\<close>\<close>

text \<open>
  The loop \<^verbatim>\<open>do { if (cur == n) { *str = s; return 0; } s += strlen(s) + 1; cur++; }
  while (s < (d + len));\<close> followed by \<^verbatim>\<open>return -1\<close>. The pointer written to
  \<^verbatim>\<open>*str\<close> is an offset into the buffer; \<^verbatim>\<open>cur\<close> is an \<^verbatim>\<open>unsigned\<close>.
\<close>

function string_loop ::
  "byte list \<Rightarrow> nat \<Rightarrow> nat \<Rightarrow> nat \<Rightarrow> nat \<Rightarrow> (int \<times> nat option) exec" where
  "string_loop d len n s cur =
     (if cur = n then Ret (0, Some s)
      else (case strlen (drop s d) of
              Undef \<Rightarrow> Undef
            | Ret k \<Rightarrow>
                (if s + k + 1 < len then string_loop d len n (s + k + 1) (unsigned_inc cur)
                 else Ret (- 1, None))))"
  by pat_completeness auto
termination
  by (relation "measure (\<lambda>(d, len, n, s, cur). len - s)") auto

definition dtfs_string_get ::
  "byte list \<Rightarrow> nat \<Rightarrow> nat \<Rightarrow> bool \<Rightarrow> (int \<times> nat option) exec" where
  "dtfs_string_get d len n str =
     (if \<not> str then Ret (- 1, None)
      else (case dtfs_get_prop_type d len False of
              Undef \<Rightarrow> Undef
            | Ret (t, _) \<Rightarrow>
                if t \<noteq> DTFS_PROP_STRINGS then Ret (- 1, None)
                else string_loop d len n 0 0))"

subsection \<open>The backing store and the allocator\<close>

text \<open>
  The library reaches its environment through \<^verbatim>\<open>stat\<close>, \<^verbatim>\<open>opendir\<close>/\<^verbatim>\<open>readdir\<close>,
  \<^verbatim>\<open>fopen\<close>/\<^verbatim>\<open>fread\<close> and \<^verbatim>\<open>malloc\<close>. The environment is a record of their answers,
  fixed during a call (the store is read-only and not changed by anyone else):
  \<^item> \<open>stat\<close>: \<open>None\<close> when the call fails, else the kind of the entry
    (\<^verbatim>\<open>S_ISDIR\<close>, \<^verbatim>\<open>S_ISREG\<close>, neither) and \<^verbatim>\<open>st_size\<close>;
  \<^item> \<open>opendir\<close>: \<open>None\<close> when it returns null, else the names \<^verbatim>\<open>readdir\<close> yields, in
    its order;
  \<^item> \<open>fopen\<close>: \<open>None\<close> when it returns null, else the bytes \<^verbatim>\<open>fread\<close> can deliver;
  \<^item> \<open>malloc\<close>: whether an allocation of that many bytes succeeds (\<^verbatim>\<open>strdup\<close> allocates the
    string and its terminator).
  A C string is a \<open>string\<close> without the terminator, \<^verbatim>\<open>strlen\<close> its length, and the
  character at an index up to its length is \<open>cstr_nth\<close> (the terminator at the end).
\<close>

datatype file_kind = Directory | Regular | Other

record stat_buf =
  st_mode :: file_kind
  st_size :: int

record env =
  stat :: "string \<Rightarrow> stat_buf option"
  opendir :: "string \<Rightarrow> string list option"
  fopen :: "string \<Rightarrow> byte list option"
  malloc :: "nat \<Rightarrow> bool"

definition cstr_nth :: "string \<Rightarrow> nat \<Rightarrow> char" where
  "cstr_nth s i = (if i < length s then s ! i else CHR 0x00)"

subsection \<open>\<^verbatim>\<open>dtfs_concat_path\<close>\<close>

text \<open>
  The header compiles one of two bodies. No file of the repository defines
  \<^verbatim>\<open>_DTFS_USE_ASPRINTF_\<close>, so the body embedded here is the \<^verbatim>\<open>#else\<close> one.
  \<^verbatim>\<open>strlen(base)\<close> is evaluated in the initialiser of \<^verbatim>\<open>len_base\<close>, before the test
  \<^verbatim>\<open>!base\<close>: on a null \<^verbatim>\<open>base\<close> the behaviour is undefined.
\<close>

definition dtfs_concat_path :: "env \<Rightarrow> string option \<Rightarrow> string option \<Rightarrow> string option exec" where
  "dtfs_concat_path e base path =
     (case base of
        None \<Rightarrow> Undef
      | Some b \<Rightarrow>
          let len_base = length b in
          if len_base < 1 then Ret None
          else (case path of
                  None \<Rightarrow> if malloc e (len_base + 1) then Ret (Some b) else Ret None
                | Some p \<Rightarrow>
                    let sep = (cstr_nth b (len_base - 1) \<noteq> CHR ''/'' \<and> cstr_nth p 0 \<noteq> CHR ''/'');
                        ok = (if sep then malloc e (len_base + length p + 2)
                              else malloc e (len_base + length p + 1))
                    in if \<not> ok then Ret None
                       else Ret (Some (if sep then b @ ''/'' @ p else b @ p))))"

subsection \<open>\<^verbatim>\<open>dtfs_check_path\<close>\<close>

definition dtfs_check_path :: "env \<Rightarrow> string option \<Rightarrow> string option \<Rightarrow> int exec" where
  "dtfs_check_path e base path =
     (case base of
        None \<Rightarrow> Ret (- 1)
      | Some _ \<Rightarrow>
          (case dtfs_concat_path e base path of
             Undef \<Rightarrow> Undef
           | Ret None \<Rightarrow> Ret (- 1)
           | Ret (Some str) \<Rightarrow>
               (case stat e str of
                  None \<Rightarrow> Ret (- 1)
                | Some s \<Rightarrow>
                    if st_mode s = Directory then Ret DTFS_PATH_NODE
                    else if st_mode s = Regular then Ret DTFS_PATH_PROPERTY
                    else Ret DTFS_PATH_ERROR)))"

subsection \<open>\<^verbatim>\<open>dtfs_list_node\<close>\<close>

text \<open>
  A visitor is a function of its arguments and of the state behind \<^verbatim>\<open>priv\<close>, returning
  the new state; a null visitor is \<open>None\<close>. A function that takes a visitor returns its
  return code and the state after the visitor's calls.

  The loop \<^verbatim>\<open>while ((ep = readdir (dp))) { if (ep->d_name[0] != '.') new_sub_node(str,
  ep->d_name, priv); }\<close> runs over the names the directory yields.
\<close>

primrec readdir_loop :: "(string \<Rightarrow> string \<Rightarrow> 'p \<Rightarrow> 'p) \<Rightarrow> string \<Rightarrow> string list \<Rightarrow> 'p \<Rightarrow> 'p" where
  "readdir_loop new_sub_node str [] priv = priv"
| "readdir_loop new_sub_node str (d_name # rest) priv =
     readdir_loop new_sub_node str rest
       (if cstr_nth d_name 0 \<noteq> CHR ''.'' then new_sub_node str d_name priv else priv)"

definition dtfs_list_node ::
  "env \<Rightarrow> string option \<Rightarrow> string option \<Rightarrow> (string \<Rightarrow> string \<Rightarrow> 'p \<Rightarrow> 'p) option \<Rightarrow> 'p
   \<Rightarrow> (int \<times> 'p) exec" where
  "dtfs_list_node e base node_path new_sub_node priv =
     (case new_sub_node of
        None \<Rightarrow> Ret (0, priv)
      | Some cb \<Rightarrow>
          (case base of
             None \<Rightarrow> Ret (- 1, priv)
           | Some _ \<Rightarrow>
               (case dtfs_concat_path e base node_path of
                  Undef \<Rightarrow> Undef
                | Ret None \<Rightarrow> Ret (- 1, priv)
                | Ret (Some str) \<Rightarrow>
                    (case opendir e str of
                       Some names \<Rightarrow> Ret (0, readdir_loop cb str names priv)
                     | None \<Rightarrow> Ret (0, priv)))))"

subsection \<open>\<^verbatim>\<open>dtfs_prop_get\<close>\<close>

text \<open>
  \<^verbatim>\<open>fread(buf, 1, size, f)\<close> fills the buffer with the first \<open>size\<close> bytes the stream
  delivers and returns how many it got.
\<close>

definition dtfs_prop_get ::
  "env \<Rightarrow> string option \<Rightarrow> string option
   \<Rightarrow> (string \<Rightarrow> byte list option \<Rightarrow> nat \<Rightarrow> 'p \<Rightarrow> 'p) option \<Rightarrow> 'p \<Rightarrow> (int \<times> 'p) exec" where
  "dtfs_prop_get e base path prop_content priv =
     (case prop_content of
        None \<Rightarrow> Ret (0, priv)
      | Some cb \<Rightarrow>
          (case dtfs_check_path e base path of
             Undef \<Rightarrow> Undef
           | Ret t \<Rightarrow>
               if t \<noteq> DTFS_PATH_PROPERTY then Ret (- 1, priv)
               else (case base of
                       None \<Rightarrow> Ret (- 1, priv)
                     | Some _ \<Rightarrow>
                         (case dtfs_concat_path e base path of
                            Undef \<Rightarrow> Undef
                          | Ret None \<Rightarrow> Ret (- 1, priv)
                          | Ret (Some str) \<Rightarrow>
                              (case stat e str of
                                 None \<Rightarrow> Ret (- 1, priv)
                               | Some s \<Rightarrow>
                                   let size = st_size s in
                                   if size > 0 then
                                     (case fopen e str of
                                        None \<Rightarrow> Ret (- 1, priv)
                                      | Some content \<Rightarrow>
                                          if \<not> malloc e (nat size) then Ret (- 1, priv)
                                          else
                                            let buf = take (nat size) content in
                                            if length buf \<noteq> nat size then Ret (- 1, priv)
                                            else Ret (0, cb str (Some buf) (nat size) priv))
                                   else Ret (0, cb str None 0 priv))))))"


section \<open>The shapes of a buffer, as the specification words them\<close>

text \<open>
  \<open>segments b\<close> cuts \<open>b\<close> at every NUL: the maximal runs of bytes up to the next NUL, in
  order, and last the bytes after the final NUL (none when \<open>b\<close> ends with a NUL).
  \<open>runs b\<close> are the NUL-terminated ones.
\<close>

primrec segments :: "byte list \<Rightarrow> byte list list" where
  "segments [] = [[]]"
| "segments (c # cs) =
     (if c = 0 then [] # segments cs
      else (case segments cs of [] \<Rightarrow> [[c]] | r # rs \<Rightarrow> (c # r) # rs))"

definition runs :: "byte list \<Rightarrow> byte list list" where
  "runs b = butlast (segments b)"

definition runs_ok :: "byte list \<Rightarrow> bool" where
  "runs_ok b = list_all (\<lambda>r. r \<noteq> [] \<and> list_all isprint r) (runs b)"

text \<open>
  A well-formed string list: the buffer is not empty, its final byte is NUL, and every
  run up to the next NUL is non-empty and printable.
\<close>

definition string_list :: "byte list \<Rightarrow> bool" where
  "string_list b = (b \<noteq> [] \<and> last b = 0 \<and> runs_ok b)"

text \<open>\<open>rs\<close> are NUL-free segments that, each followed by its NUL, exactly tile \<open>b\<close>.\<close>

definition tiling :: "byte list list \<Rightarrow> byte list \<Rightarrow> bool" where
  "tiling rs b = (list_all (\<lambda>r. 0 \<notin> set r) rs \<and> concat (map (\<lambda>r. r @ [0]) rs) = b)"

text \<open>
  The offset of the first byte of the \<open>n\<close>-th run, and the C string a pointer at an offset
  denotes: the bytes from there up to the next NUL.
\<close>

definition run_start :: "byte list \<Rightarrow> nat \<Rightarrow> nat" where
  "run_start b n = sum_list (map (\<lambda>r. length r + 1) (take n (runs b)))"

definition c_string :: "byte list \<Rightarrow> nat \<Rightarrow> byte list" where
  "c_string b off = takeWhile (\<lambda>c. c \<noteq> 0) (drop off b)"

text \<open>Four bytes read as a big-endian 32-bit integer: the first byte weighs most.\<close>

definition be32 :: "byte \<Rightarrow> byte \<Rightarrow> byte \<Rightarrow> byte \<Rightarrow> u32" where
  "be32 b0 b1 b2 b3 =
     word_of_nat (unat b0 * 2 ^ 24 + unat b1 * 2 ^ 16 + unat b2 * 2 ^ 8 + unat b3)"

text \<open>
  Visitors that record their calls, in order, and a small store for the examples: the
  node \<^verbatim>\<open>/dt\<close> holds the property \<^verbatim>\<open>model\<close> (the two bytes \<^verbatim>\<open>a\0\<close>), the empty
  property \<^verbatim>\<open>ranges\<close> and the node \<^verbatim>\<open>cpus\<close>; nothing else exists, and every allocation
  succeeds.
\<close>

definition log_child :: "string \<Rightarrow> string \<Rightarrow> (string \<times> string) list \<Rightarrow> (string \<times> string) list" where
  "log_child path name calls = calls @ [(path, name)]"

definition log_prop ::
  "string \<Rightarrow> byte list option \<Rightarrow> nat \<Rightarrow> (string \<times> byte list option \<times> nat) list
   \<Rightarrow> (string \<times> byte list option \<times> nat) list" where
  "log_prop path data len calls = calls @ [(path, data, len)]"

definition sample_store :: env where
  "sample_store =
     \<lparr>stat = (\<lambda>p. if p = ''/dt'' \<or> p = ''/dt/cpus''
                  then Some \<lparr>st_mode = Directory, st_size = 0\<rparr>
                  else if p = ''/dt/model'' then Some \<lparr>st_mode = Regular, st_size = 2\<rparr>
                  else if p = ''/dt/ranges'' then Some \<lparr>st_mode = Regular, st_size = 0\<rparr>
                  else None),
      opendir = (\<lambda>p. if p = ''/dt'' then Some [''.'', ''..'', ''model'', ''ranges'', ''cpus'']
                     else if p = ''/dt/cpus'' then Some [''.'', ''..'']
                     else None),
      fopen = (\<lambda>p. if p = ''/dt/model'' then Some [0x61, 0]
                   else if p = ''/dt/ranges'' then Some []
                   else None),
      malloc = (\<lambda>n. True)\<rparr>"

text \<open>
  Three buffers of \<open>2^31\<close> bytes and more, where the narrowed lengths show: \<^verbatim>\<open>abc\0\<close>
  followed by \<open>2^32\<close> NUL bytes (its length narrows to the \<^verbatim>\<open>int\<close> 4), \<open>2^32 + 1\<close> bytes
  \<^verbatim>\<open>01\<close> (its length narrows to the \<^verbatim>\<open>unsigned\<close> 1), and \<open>2^31 + 1\<close> NUL bytes (its length
  narrows to a negative \<^verbatim>\<open>int\<close>).
\<close>

definition wide_strings :: "byte list" where
  "wide_strings = [0x61, 0x62, 0x63, 0] @ replicate (2 ^ 32) 0"

definition wide_bytes :: "byte list" where
  "wide_bytes = replicate (2 ^ 32 + 1) 1"

definition negative_len :: "byte list" where
  "negative_len = replicate (2 ^ 31 + 1) 0"

section \<open>Runs and the loops over them\<close>

lemma segments_ne: "segments xs \<noteq> []"
  by (induction xs) (auto split: list.splits)

lemma segments_run: "0 \<notin> set r \<Longrightarrow> segments (r @ 0 # xs) = r # segments xs"
  by (induction r) (auto)

lemma runs_run: "0 \<notin> set r \<Longrightarrow> runs (r @ 0 # xs) = r # runs xs"
  by (simp add: runs_def segments_run segments_ne)

lemma runs_Nil: "runs [] = []"
  by (simp add: runs_def)

lemma split_at_nul:
  "0 \<in> set xs \<Longrightarrow> xs = takeWhile (\<lambda>c. c \<noteq> 0) xs @ 0 # tl (dropWhile (\<lambda>c. c \<noteq> 0) xs)"
  by (induction xs) auto

lemma strlen_takeWhile: "0 \<in> set xs \<Longrightarrow> strlen xs = Ret (length (takeWhile (\<lambda>c. c \<noteq> 0) xs))"
  by (induction xs) auto

lemma scan_run_eq:
  "s \<le> length d \<Longrightarrow>
   scan_run d (length d) s = Ret (s + length (takeWhile (\<lambda>c. c \<noteq> 0 \<and> isprint c) (drop s d)))"
proof (induction d "length d" s rule: scan_run.induct)
  case (1 d s)
  show ?case
  proof (cases "s < length d")
    case False
    with "1.prems" show ?thesis by simp
  next
    case True
    then have dr: "drop s d = d ! s # drop (s + 1) d" by (simp add: Cons_nth_drop_Suc)
    from True have r: "rd d s = Ret (d ! s)" by (simp add: rd_def)
    show ?thesis
    proof (cases "d ! s \<noteq> 0 \<and> isprint (d ! s)")
      case False
      with True r dr show ?thesis by auto
    next
      case go: True
      from True have "s + 1 \<le> length d" by simp
      from "1.hyps" [OF True r go this] True r go dr show ?thesis by simp
    qed
  qed
qed

lemma runs_first:
  "0 \<in> set xs \<Longrightarrow>
   runs xs = takeWhile (\<lambda>c. c \<noteq> 0) xs # runs (tl (dropWhile (\<lambda>c. c \<noteq> 0) xs))"
proof -
  assume a: "0 \<in> set xs"
  have "0 \<notin> set (takeWhile (\<lambda>c. c \<noteq> 0) xs)"
    by (auto dest: set_takeWhileD)
  from runs_run [OF this, of "tl (dropWhile (\<lambda>c. c \<noteq> 0) xs)"] split_at_nul [OF a]
  show ?thesis by simp
qed

lemma runs_ok_first:
  "0 \<in> set xs \<Longrightarrow>
   runs_ok xs =
     (takeWhile (\<lambda>c. c \<noteq> 0) xs \<noteq> [] \<and> list_all isprint (takeWhile (\<lambda>c. c \<noteq> 0) xs) \<and>
      runs_ok (tl (dropWhile (\<lambda>c. c \<noteq> 0) xs)))"
  by (simp add: runs_ok_def runs_first)

text \<open>The printable prefix against the run up to the next NUL.\<close>

lemma prefix_cases:
  fixes xs :: "byte list"
  defines "p \<equiv> takeWhile (\<lambda>c. c \<noteq> 0 \<and> isprint c) xs"
  defines "r \<equiv> takeWhile (\<lambda>c. c \<noteq> 0) xs"
  assumes z: "0 \<in> set xs"
  shows "length p < length xs"
    and "xs ! length p = 0 \<Longrightarrow> p = r"
    and "xs ! length p \<noteq> 0 \<Longrightarrow> \<not> list_all isprint r"
  using z unfolding p_def r_def by (induction xs) (auto)


lemma tl_dropWhile_drop:
  "tl (dropWhile P xs) = drop (length (takeWhile P xs) + 1) xs"
  by (induction xs) auto

lemma all_print_prefix: "list_all isprint (takeWhile (\<lambda>c. c \<noteq> 0 \<and> isprint c) xs)"
  by (induction xs) auto

lemma printable_loop_eq:
  assumes "d \<noteq> []" and "last d = 0" and "s \<le> length d"
  shows "printable_loop d (length d) s = Ret (if runs_ok (drop s d) then 1 else 0)"
  using assms
proof (induction d "length d" s rule: printable_loop.induct)
  case (1 d s)
  show ?case
  proof (cases "s < length d")
    case False
    with "1.prems" show ?thesis by (simp add: runs_ok_def runs_Nil)
  next
    case True
    define xs where "xs = drop s d"
    define p where "p = takeWhile (\<lambda>c. c \<noteq> 0 \<and> isprint c) xs"
    define r where "r = takeWhile (\<lambda>c. c \<noteq> 0) xs"
    from True have ne: "xs \<noteq> []" by (simp add: xs_def)
    from True "1.prems" have "last xs = 0" by (simp add: xs_def)
    with ne have z: "0 \<in> set xs" by (metis last_in_set)
    have sc: "scan_run d (length d) s = Ret (s + length p)"
      using scan_run_eq [of s d] "1.prems" by (simp add: p_def xs_def)
    from prefix_cases(1) [OF z] have lt: "s + length p < length d"
      by (simp add: p_def xs_def)
    then have r: "rd d (s + length p) = Ret (xs ! length p)"
      using True by (simp add: rd_def xs_def)
    show ?thesis
    proof (cases "xs ! length p \<noteq> 0 \<or> s + length p = s")
      case stop: True
      have "\<not> runs_ok xs"
      proof (cases "xs ! length p = 0")
        case True
        with stop have "p = []" by simp
        moreover from True have "p = r" unfolding p_def r_def by (rule prefix_cases(2) [OF z])
        ultimately show ?thesis using runs_ok_first [OF z] by (simp add: r_def)
      next
        case False
        then have "\<not> list_all isprint r" unfolding p_def r_def by (rule prefix_cases(3) [OF z])
        then show ?thesis using runs_ok_first [OF z] by (simp add: r_def)
      qed
      with True sc r stop show ?thesis unfolding xs_def by auto
    next
      case go: False
      then have c0: "xs ! length p = 0" and pne: "p \<noteq> []" by auto
      from c0 have pr: "p = r" unfolding p_def r_def by (rule prefix_cases(2) [OF z])
      have "list_all isprint p" unfolding p_def by (rule all_print_prefix)
      with pr pne have ok: "runs_ok xs = runs_ok (drop (s + length p + 1) d)"
        using runs_ok_first [OF z] by (simp add: r_def tl_dropWhile_drop xs_def add.commute add.left_commute)
      from lt have "s + length p + 1 \<le> length d" by simp
      from "1.hyps" [OF True sc r go "1.prems"(1,2) this]
      have "printable_loop d (length d) (s + length p + 1) =
            Ret (if runs_ok (drop (s + length p + 1) d) then 1 else 0)" .
      with True sc r go ok show ?thesis unfolding xs_def by simp
    qed
  qed
qed

lemma int_of_size_t_small: "n < 2 ^ 31 \<Longrightarrow> int_of_size_t n = int n"
  by (simp add: int_of_size_t_def)

lemma is_printable_string_eq:
  "is_printable_string b (int (length b)) = Ret (if string_list b then 1 else 0)"
proof (cases "b = []")
  case True
  then show ?thesis by (simp add: is_printable_string_def string_list_def)
next
  case False
  then have n: "nat (int (length b) - 1) = length b - 1" by simp
  from False have r: "rd_int b (int (length b) - 1) = Ret (last b)"
    by (simp add: rd_int_def rd_def last_conv_nth n)
  show ?thesis
  proof (cases "last b = 0")
    case True
    with False r printable_loop_eq [of b 0] show ?thesis
      by (simp add: is_printable_string_def string_list_def)
  next
    case nz: False
    with False r show ?thesis
      by (simp add: is_printable_string_def string_list_def)
  qed
qed

lemma length_segments: "length (segments xs) \<le> Suc (length xs)"
  by (induction xs) (auto split: list.splits)

lemma length_runs: "length (runs xs) \<le> length xs"
  using length_segments [of xs] by (simp add: runs_def)

lemma count_loop_eq:
  assumes "last d = 0" and "s < length d" and "k + length (runs (drop s d)) < 2 ^ 32"
  shows "count_loop d (length d) s k = Ret (k + length (runs (drop s d)))"
  using assms
proof (induction d "length d" s k rule: count_loop.induct)
  case (1 d s k)
  define xs where "xs = drop s d"
  define r where "r = takeWhile (\<lambda>c. c \<noteq> 0) xs"
  from "1.prems" have ne: "xs \<noteq> []" and "last xs = 0" by (simp_all add: xs_def)
  then have z: "0 \<in> set xs" by (metis last_in_set)
  have sl: "strlen (drop s d) = Ret (length r)"
    using strlen_takeWhile [OF z] by (simp add: r_def xs_def)
  have rest: "runs xs = r # runs (drop (s + length r + 1) d)"
    using runs_first [OF z]
    by (simp add: r_def tl_dropWhile_drop xs_def add.commute add.left_commute)
  with "1.prems"(3) have bound: "k + 1 + length (runs (drop (s + length r + 1) d)) < 2 ^ 32"
    by (simp add: xs_def)
  then have inc: "unsigned_inc k = k + 1" by (simp add: unsigned_inc_def)
  show ?case
  proof (cases "s + length r + 1 < length d")
    case True
    from bound inc
    have b': "unsigned_inc k + length (runs (drop (s + length r + 1) d)) < 2 ^ 32" by simp
    from "1.hyps" [OF sl True "1.prems"(1) True b'] True sl rest inc
    show ?thesis unfolding xs_def by simp
  next
    case False
    with sl rest inc show ?thesis unfolding xs_def by (simp add: runs_Nil)
  qed
qed

lemma tiles_runs:
  "xs = [] \<or> last xs = 0 \<Longrightarrow> concat (map (\<lambda>r. r @ [0]) (runs xs)) = xs"
proof (induction "length xs" arbitrary: xs rule: less_induct)
  case less
  show ?case
  proof (cases "xs = []")
    case True
    then show ?thesis by (simp add: runs_Nil)
  next
    case False
    with less.prems have "last xs = 0" by simp
    with False have z: "0 \<in> set xs" by (metis last_in_set)
    define r where "r = takeWhile (\<lambda>c. c \<noteq> 0) xs"
    define ys where "ys = tl (dropWhile (\<lambda>c. c \<noteq> 0) xs)"
    from split_at_nul [OF z] have xs: "xs = r @ 0 # ys" by (simp add: r_def ys_def)
    have "length xs = length (r @ 0 # ys)" by (subst xs) (rule refl)
    then have "length ys < length xs" by simp
    moreover have "last xs = last (r @ 0 # ys)" by (subst xs) (rule refl)
    with \<open>last xs = 0\<close> have "ys = [] \<or> last ys = 0" by (simp split: if_splits)
    ultimately have "concat (map (\<lambda>r. r @ [0]) (runs ys)) = ys" by (rule less.hyps)
    moreover have "runs xs = r # runs ys" using runs_first [OF z] by (simp add: r_def ys_def)
    ultimately show ?thesis using xs by simp
  qed
qed

lemma runs_tiles:
  "\<forall>r\<in>set rs. 0 \<notin> set r \<Longrightarrow> runs (concat (map (\<lambda>r. r @ [0]) rs)) = rs"
  by (induction rs) (simp_all add: runs_Nil runs_run)

lemma runs_no_nul: "r \<in> set (runs xs) \<Longrightarrow> 0 \<notin> set r"
proof (induction "length xs" arbitrary: xs rule: less_induct)
  case less
  show ?case
  proof (cases "0 \<in> set xs")
    case z: True
    define r' where "r' = takeWhile (\<lambda>c. c \<noteq> 0) xs"
    define ys where "ys = tl (dropWhile (\<lambda>c. c \<noteq> 0) xs)"
    from split_at_nul [OF z] have xs: "xs = r' @ 0 # ys" by (simp add: r'_def ys_def)
    have "length xs = length (r' @ 0 # ys)" by (subst xs) (rule refl)
    then have len: "length ys < length xs" by simp
    have "runs xs = r' # runs ys" using runs_first [OF z] by (simp add: r'_def ys_def)
    with less.prems have "r = r' \<or> r \<in> set (runs ys)" by auto
    then show ?thesis
    proof
      assume "r = r'"
      then show ?thesis by (auto simp: r'_def dest: set_takeWhileD)
    next
      assume "r \<in> set (runs ys)"
      with len show ?thesis by (rule less.hyps)
    qed
  next
    case False
    have "0 \<notin> set xs \<Longrightarrow> segments xs = [xs]" for xs :: "byte list"
      by (induction xs) auto
    with False less.prems show ?thesis by (simp add: runs_def)
  qed
qed

lemma last_tiles: "rs \<noteq> [] \<Longrightarrow> last (concat (map (\<lambda>r. r @ [0]) rs)) = (0 :: byte)"
  by (induction rs) (auto simp: last_append)

lemma isprint_not_nul: "isprint c \<Longrightarrow> c \<noteq> 0"
  by (auto simp: isprint_def)

lemma string_list_iff_tiling:
  "string_list b \<longleftrightarrow>
     (\<exists>rs. rs \<noteq> [] \<and> b = concat (map (\<lambda>r. r @ [0]) rs) \<and>
           (\<forall>r\<in>set rs. r \<noteq> [] \<and> (\<forall>c\<in>set r. c \<noteq> 0 \<and> isprint c)))"
  (is "?L \<longleftrightarrow> ?R")
proof
  assume ?L
  then have ne: "b \<noteq> []" and l: "last b = 0" and ok: "runs_ok b" by (simp_all add: string_list_def)
  from l have t: "b = concat (map (\<lambda>r. r @ [0]) (runs b))" by (simp add: tiles_runs)
  with ne have "runs b \<noteq> []" by auto
  moreover from ok have "\<forall>r\<in>set (runs b). r \<noteq> [] \<and> (\<forall>c\<in>set r. c \<noteq> 0 \<and> isprint c)"
    by (auto simp: runs_ok_def list_all_iff isprint_not_nul)
  ultimately show ?R using t by blast
next
  assume ?R
  then obtain rs where rs: "rs \<noteq> []" and b: "b = concat (map (\<lambda>r. r @ [0]) rs)"
    and ok: "\<forall>r\<in>set rs. r \<noteq> [] \<and> (\<forall>c\<in>set r. c \<noteq> 0 \<and> isprint c)" by blast
  from ok have "\<forall>r\<in>set rs. 0 \<notin> set r" by auto
  then have r: "runs b = rs" unfolding b by (rule runs_tiles)
  from rs b have ne: "b \<noteq> []" by (cases rs) auto
  from rs have "last b = 0" unfolding b by (rule last_tiles)
  with ne r ok show ?L by (auto simp: string_list_def runs_ok_def list_all_iff)
qed

lemma get_prop_type_eq:
  assumes "length b < 2 ^ 31"
  shows "dtfs_get_prop_type b (length b) count =
     Ret (if b = [] then (DTFS_PROP_SIMPLE, None)
          else if string_list b then
            (DTFS_PROP_STRINGS, if count then Some (length (runs b)) else None)
          else if length b mod 4 = 0 then
            (DTFS_PROP_WORDS, if count then Some (length b div 4) else None)
          else (DTFS_PROP_BYTES, if count then Some (length b) else None))"
proof (cases "b = []")
  case True
  then show ?thesis by (simp add: dtfs_get_prop_type_def)
next
  case False
  from assms have n: "int_of_size_t (length b) = int (length b)" by (rule int_of_size_t_small)
  from assms have u: "unsigned_of_size_t (length b) = length b"
    and u4: "unsigned_of_size_t (length b div 4) = length b div 4"
    by (simp_all add: unsigned_of_size_t_def)
  show ?thesis
  proof (cases "string_list b")
    case True
    then have "last b = 0" by (simp add: string_list_def)
    moreover from assms length_runs [of b] have "0 + length (runs (drop 0 b)) < 2 ^ 32" by simp
    ultimately have "count_loop b (length b) 0 0 = Ret (length (runs b))"
      using False count_loop_eq [of b 0 0] by simp
    with False True show ?thesis
      by (simp add: dtfs_get_prop_type_def n is_printable_string_eq)
  next
    case no: False
    with False show ?thesis
      by (simp add: dtfs_get_prop_type_def n u u4 is_printable_string_eq)
  qed
qed

lemma tiling_runs: "tiling rs b \<longleftrightarrow> (b = [] \<or> last b = 0) \<and> rs = runs b"
proof
  assume t: "tiling rs b"
  then have nn: "\<forall>r\<in>set rs. 0 \<notin> set r" and b: "b = concat (map (\<lambda>r. r @ [0]) rs)"
    by (auto simp: tiling_def list_all_iff)
  from nn have "runs b = rs" unfolding b by (rule runs_tiles)
  moreover have "b = [] \<or> last b = 0"
  proof (cases "rs = []")
    case True
    with b show ?thesis by simp
  next
    case False
    then show ?thesis unfolding b by (simp add: last_tiles)
  qed
  ultimately show "(b = [] \<or> last b = 0) \<and> rs = runs b" by simp
next
  assume "(b = [] \<or> last b = 0) \<and> rs = runs b"
  then show "tiling rs b"
    by (auto simp: tiling_def list_all_iff tiles_runs dest: runs_no_nul)
qed

lemma prop_tags_distinct:
  "DTFS_PROP_SIMPLE \<noteq> DTFS_PROP_STRINGS" "DTFS_PROP_SIMPLE \<noteq> DTFS_PROP_WORDS"
  "DTFS_PROP_SIMPLE \<noteq> DTFS_PROP_BYTES" "DTFS_PROP_STRINGS \<noteq> DTFS_PROP_WORDS"
  "DTFS_PROP_STRINGS \<noteq> DTFS_PROP_BYTES" "DTFS_PROP_WORDS \<noteq> DTFS_PROP_BYTES"
  by (simp_all add: DTFS_PROP_SIMPLE_def DTFS_PROP_STRINGS_def DTFS_PROP_WORDS_def
      DTFS_PROP_BYTES_def)

lemma string_loop_eq:
  assumes "last d = 0" and "s < length d" and "cur \<le> n"
    and "cur + length (runs (drop s d)) < 2 ^ 32"
  shows "string_loop d (length d) n s cur =
     (if n - cur < length (runs (drop s d))
      then Ret (0, Some (s + sum_list (map (\<lambda>r. length r + 1) (take (n - cur) (runs (drop s d))))))
      else Ret (- 1, None))"
  using assms
proof (induction d "length d" n s cur rule: string_loop.induct)
  case (1 d n s cur)
  define xs where "xs = drop s d"
  define r where "r = takeWhile (\<lambda>c. c \<noteq> 0) xs"
  from "1.prems" have ne: "xs \<noteq> []" and l: "last xs = 0" by (simp_all add: xs_def)
  then have z: "0 \<in> set xs" by (metis last_in_set)
  have sl: "strlen (drop s d) = Ret (length r)"
    using strlen_takeWhile [OF z] by (simp add: r_def xs_def)
  have rest: "runs xs = r # runs (drop (s + length r + 1) d)"
    using runs_first [OF z]
    by (simp add: r_def tl_dropWhile_drop xs_def add.commute add.left_commute)
  with "1.prems"(4) have bound: "cur + 1 + length (runs (drop (s + length r + 1) d)) < 2 ^ 32"
    by (simp add: xs_def)
  then have inc: "unsigned_inc cur = cur + 1" by (simp add: unsigned_inc_def)
  show ?case
  proof (cases "cur = n")
    case True
    with rest show ?thesis unfolding xs_def by simp
  next
    case False
    with "1.prems" have lt: "cur < n" by simp
    then obtain m where m: "n - cur = Suc m" and m': "n - (cur + 1) = m"
      by (metis Suc_diff_Suc Suc_eq_plus1 diff_diff_left)
    show ?thesis
    proof (cases "s + length r + 1 < length d")
      case True
      from lt inc have le: "unsigned_inc cur \<le> n" by simp
      from bound inc
      have b': "unsigned_inc cur + length (runs (drop (s + length r + 1) d)) < 2 ^ 32" by simp
      from "1.hyps" [OF False sl True "1.prems"(1) True le b'] False True sl rest m m' inc
      show ?thesis unfolding xs_def by simp
    next
      case stop: False
      with False sl rest m show ?thesis unfolding xs_def by (simp add: runs_Nil)
    qed
  qed
qed

lemma c_string_run:
  "xs = [] \<or> last xs = 0 \<Longrightarrow> n < length (runs xs) \<Longrightarrow>
   c_string xs (run_start xs n) = runs xs ! n \<and> run_start xs n < length xs"
proof (induction n arbitrary: xs)
  case 0
  then have "xs \<noteq> []" by (auto simp: runs_Nil)
  with 0 have z: "0 \<in> set xs" by (metis last_in_set)
  from runs_first [OF z] \<open>xs \<noteq> []\<close> show ?case by (simp add: c_string_def run_start_def)
next
  case (Suc n)
  then have ne: "xs \<noteq> []" by (auto simp: runs_Nil)
  with Suc.prems have l: "last xs = 0" by simp
  with ne have z: "0 \<in> set xs" by (metis last_in_set)
  define r where "r = takeWhile (\<lambda>c. c \<noteq> 0) xs"
  define ys where "ys = tl (dropWhile (\<lambda>c. c \<noteq> 0) xs)"
  from split_at_nul [OF z] have xs: "xs = r @ 0 # ys" by (simp add: r_def ys_def)
  have rs: "runs xs = r # runs ys" using runs_first [OF z] by (simp add: r_def ys_def)
  have "last xs = last (r @ 0 # ys)" by (subst xs) (rule refl)
  with l have "ys = [] \<or> last ys = 0" by (simp split: if_splits)
  moreover from Suc.prems rs have "n < length (runs ys)" by simp
  ultimately have IH: "c_string ys (run_start ys n) = runs ys ! n \<and> run_start ys n < length ys"
    by (rule Suc.IH)
  have st: "run_start xs (Suc n) = length r + 1 + run_start ys n"
    by (simp add: run_start_def rs)
  have "drop (length r + 1 + run_start ys n) (r @ 0 # ys) = drop (run_start ys n) ys"
    by simp
  then have "c_string (r @ 0 # ys) (length r + 1 + run_start ys n) = c_string ys (run_start ys n)"
    unfolding c_string_def by simp
  with xs st have "c_string xs (run_start xs (Suc n)) = c_string ys (run_start ys n)" by simp
  moreover have "length xs = length (r @ 0 # ys)" by (subst xs) (rule refl)
  ultimately show ?case using IH st rs by simp
qed

lemma string_get_eq:
  assumes "length b < 2 ^ 31"
  shows "dtfs_string_get b (length b) n True =
     (if string_list b \<and> n < length (runs b) then Ret (0, Some (run_start b n))
      else Ret (- 1, None))"
proof (cases "string_list b")
  case True
  then have "b \<noteq> []" "last b = 0" by (simp_all add: string_list_def)
  moreover from assms length_runs [of b] have "0 + length (runs (drop 0 b)) < 2 ^ 32" by simp
  ultimately show ?thesis using True string_loop_eq [of b 0 0 n]
    by (simp add: dtfs_string_get_def get_prop_type_eq [OF assms] run_start_def)
next
  case False
  then show ?thesis using prop_tags_distinct
    by (simp add: dtfs_string_get_def get_prop_type_eq [OF assms])
qed

section \<open>Byte order\<close>

lemma le_byte0: "(ucast (u32_of_bytes LittleEndian b0 b1 b2 b3) :: byte) = b0"
  unfolding u32_of_bytes_def
  by (simp, rule bit_word_eqI) (simp add: bit_simps)

lemma le_byte1: "(ucast (drop_bit 8 (u32_of_bytes LittleEndian b0 b1 b2 b3)) :: byte) = b1"
  unfolding u32_of_bytes_def
  by (simp, rule bit_word_eqI) (auto simp add: bit_simps dest: bit_imp_le_length)

lemma le_byte2: "(ucast (drop_bit 16 (u32_of_bytes LittleEndian b0 b1 b2 b3)) :: byte) = b2"
  unfolding u32_of_bytes_def
  by (simp, rule bit_word_eqI) (auto simp add: bit_simps dest: bit_imp_le_length)

lemma le_byte3: "(ucast (drop_bit 24 (u32_of_bytes LittleEndian b0 b1 b2 b3)) :: byte) = b3"
  unfolding u32_of_bytes_def
  by (simp, rule bit_word_eqI) (auto simp add: bit_simps dest: bit_imp_le_length)

lemma bswap_32_le:
  "bswap_32 (u32_of_bytes LittleEndian b0 b1 b2 b3) = u32_of_bytes BigEndian b0 b1 b2 b3"
  unfolding bswap_32_def le_byte0 le_byte1 le_byte2 le_byte3
  by (simp add: u32_of_bytes_def)

lemma be_value: "u32_of_bytes BigEndian b0 b1 b2 b3 = be32 b0 b1 b2 b3"
proof -
  have a: "push_bit 8 (ucast b2 :: u32) OR ucast b3 = push_bit 8 (ucast b2) + ucast b3"
    by (rule disjunctive_add [symmetric]) (auto simp: bit_simps dest: bit_imp_le_length)
  have b: "push_bit 16 (ucast b1 :: u32) OR (push_bit 8 (ucast b2) OR ucast b3)
         = push_bit 16 (ucast b1) + (push_bit 8 (ucast b2) OR ucast b3)"
    by (rule disjunctive_add [symmetric]) (auto simp: bit_simps dest: bit_imp_le_length)
  have c: "push_bit 24 (ucast b0 :: u32) OR
             (push_bit 16 (ucast b1) OR (push_bit 8 (ucast b2) OR ucast b3))
         = push_bit 24 (ucast b0) +
             (push_bit 16 (ucast b1) OR (push_bit 8 (ucast b2) OR ucast b3))"
    by (rule disjunctive_add [symmetric]) (auto simp: bit_simps dest: bit_imp_le_length)
  have u: "(ucast x :: u32) = word_of_nat (unat x)" for x :: byte
    by simp
  have "u32_of_bytes BigEndian b0 b1 b2 b3 =
        push_bit 24 (ucast b0) + (push_bit 16 (ucast b1) OR (push_bit 8 (ucast b2) OR ucast b3))"
    unfolding u32_of_bytes_def by (simp only: c endian.case)
  also have "\<dots> =
        push_bit 24 (ucast b0) + (push_bit 16 (ucast b1) + (push_bit 8 (ucast b2) OR ucast b3))"
    by (simp only: b)
  also have "\<dots> =
        push_bit 24 (ucast b0) + (push_bit 16 (ucast b1) + (push_bit 8 (ucast b2) + ucast b3))"
    by (simp only: a)
  also have "\<dots> = be32 b0 b1 b2 b3"
    unfolding be32_def by (simp add: push_bit_eq_mult u del: of_nat_unat)
  finally show ?thesis .
qed

lemma ntohl_load: "ntohl host (u32_of_bytes host b0 b1 b2 b3) = be32 b0 b1 b2 b3"
  by (cases host) (simp_all add: ntohl_def bswap_32_le be_value)

lemma word_get_eq:
  assumes "length b < 2 ^ 31"
  shows "dtfs_word_get host b (length b) n True =
     (if b = [] \<or> string_list b \<or> length b mod 4 \<noteq> 0 \<or> n * 4 > length b then Ret (- 1, None)
      else if n * 4 = length b then Undef
      else Ret (0, Some (be32 (b ! (4 * n)) (b ! (4 * n + 1)) (b ! (4 * n + 2)) (b ! (4 * n + 3)))))"
proof -
  have "4 * n + 4 \<le> length b" if "length b mod 4 = 0" "\<not> n * 4 > length b" "n * 4 \<noteq> length b"
    using that by presburger
  moreover have "\<not> 4 * n + 4 \<le> length b" if "n * 4 = length b"
    using that by simp
  ultimately show ?thesis
    using prop_tags_distinct
    by (subst dtfs_word_get_def, subst get_prop_type_eq [OF assms])
       (auto simp: load_u32_def ntohl_load)
qed

section \<open>Paths and traversal\<close>

lemma concat_path_empty: "dtfs_concat_path e (Some []) path = Ret None"
  by (simp add: dtfs_concat_path_def)

lemma concat_path_joins:
  assumes "b \<noteq> []" and "\<And>n. malloc e n"
  shows "dtfs_concat_path e (Some b) None = Ret (Some b)"
    and "dtfs_concat_path e (Some b) (Some p) =
           Ret (Some (if last b \<noteq> CHR ''/'' \<and> (p = [] \<or> hd p \<noteq> CHR ''/'')
                      then b @ ''/'' @ p else b @ p))"
  using assms
  by (auto simp: dtfs_concat_path_def cstr_nth_def Let_def last_conv_nth hd_conv_nth)



lemma list_node_join_fails:
  "base = None \<or> dtfs_concat_path e base node_path = Ret None \<Longrightarrow>
   dtfs_list_node e base node_path (Some cb) priv = Ret (- 1, priv)"
  by (auto simp: dtfs_list_node_def split: option.splits)

lemma list_node_open_fails:
  "dtfs_concat_path e base node_path = Ret (Some str) \<Longrightarrow> opendir e str = None \<Longrightarrow>
   dtfs_list_node e base node_path (Some cb) priv = Ret (0, priv)"
  by (auto simp: dtfs_list_node_def dtfs_concat_path_def split: option.splits)

text \<open>
  On a directory that opens, the visitor is called once for every name that does not begin
  with a dot, in the order the directory yields them.
\<close>

lemma readdir_loop_log:
  "readdir_loop log_child str names calls =
     calls @ map (Pair str) (filter (\<lambda>name. cstr_nth name 0 \<noteq> CHR ''.'') names)"
  by (induction names arbitrary: calls) (simp_all add: log_child_def)

lemma list_node_visits:
  "dtfs_concat_path e base node_path = Ret (Some str) \<Longrightarrow> opendir e str = Some names \<Longrightarrow>
   dtfs_list_node e base node_path (Some log_child) [] =
     Ret (0, map (Pair str) (filter (\<lambda>name. cstr_nth name 0 \<noteq> CHR ''.'') names))"
  by (auto simp: dtfs_list_node_def dtfs_concat_path_def readdir_loop_log split: option.splits)

lemma list_node_sample:
  "dtfs_list_node sample_store (Some ''/dt'') None (Some log_child) [] =
     Ret (0, [(''/dt'', ''model''), (''/dt'', ''ranges''), (''/dt'', ''cpus'')])"
  by (simp add: dtfs_list_node_def dtfs_concat_path_def sample_store_def log_child_def cstr_nth_def)

lemma check_path_property:
  "dtfs_check_path e base path = Ret DTFS_PATH_PROPERTY \<longleftrightarrow>
     (\<exists>str s. dtfs_concat_path e base path = Ret (Some str) \<and> stat e str = Some s \<and>
              st_mode s = Regular)"
  by (cases base)
     (auto simp: dtfs_check_path_def dtfs_concat_path_def DTFS_PATH_PROPERTY_def
       DTFS_PATH_NODE_def DTFS_PATH_ERROR_def split: exec.splits option.splits)

section \<open>Buffers of \<open>2^31\<close> bytes and more\<close>

lemma count_loop_zeros:
  assumes "s < length d" and "drop s d = replicate (length d - s) 0"
  shows "count_loop d (length d) s k = Ret ((k + (length d - s)) mod 2 ^ 32)"
  using assms
proof (induction d "length d" s k rule: count_loop.induct)
  case (1 d s k)
  from "1.prems" obtain m where m: "length d - s = Suc m"
    by (metis Suc_diff_Suc)
  with "1.prems" have dr: "drop s d = 0 # replicate m 0" by simp
  then have sl: "strlen (drop s d) = Ret 0" by simp
  have "drop (Suc s) d = tl (drop s d)" by (simp add: drop_Suc tl_drop)
  with dr have tl: "drop (s + 0 + 1) d = replicate m 0" by simp
  have step: "count_loop d (length d) s k =
              (if s + 0 + 1 < length d then count_loop d (length d) (s + 0 + 1) (unsigned_inc k)
               else Ret (unsigned_inc k))"
    by (subst count_loop.simps) (simp add: sl)
  show ?case
  proof (cases "s + 0 + 1 < length d")
    case True
    with m have m': "length d - (s + 0 + 1) = m" by simp
    from tl m' have "drop (s + 0 + 1) d = replicate (length d - (s + 0 + 1)) 0" by simp
    from "1.hyps" [OF sl True True this]
    have "count_loop d (length d) (s + 0 + 1) (unsigned_inc k) =
          Ret ((unsigned_inc k + m) mod 2 ^ 32)" by (simp only: m')
    moreover have "(unsigned_inc k + m) mod 2 ^ 32 = (k + Suc m) mod 2 ^ 32"
      unfolding unsigned_inc_def by (simp add: mod_simps)
    ultimately show ?thesis using True step m by simp
  next
    case False
    with m have "m = 0" by simp
    with False step m show ?thesis by (simp add: unsigned_inc_def)
  qed
qed

lemma wide_strings_len: "length wide_strings = 4294967300"
  by (simp add: wide_strings_def)

lemma wide_strings_narrow: "int_of_size_t (length wide_strings) = 4"
  by (simp add: wide_strings_len int_of_size_t_def)

lemma wide_strings_printable: "is_printable_string wide_strings 4 = Ret 1"
  by (simp add: is_printable_string_def rd_int_def rd_def wide_strings_def isprint_def nth_append)

lemma runs_nul: "runs (0 # xs) = [] # runs xs"
  by (simp add: runs_def segments_ne)

lemma wide_strings_not_list: "\<not> string_list wide_strings"
proof -
  have "replicate (2 ^ 32) (0 :: byte) = 0 # replicate (2 ^ 32 - 1) 0"
    by (metis replicate_Suc Suc_diff_1 zero_less_numeral zero_less_power)
  then have "runs (replicate (2 ^ 32) (0 :: byte)) = [] # runs (replicate (2 ^ 32 - 1) 0)"
    by (simp only: runs_nul)
  moreover have "runs wide_strings = [0x61, 0x62, 0x63] # runs (replicate (2 ^ 32) 0)"
    using runs_run [of "[0x61, 0x62, 0x63]" "replicate (2 ^ 32) 0"]
    by (simp add: wide_strings_def)
  ultimately show ?thesis by (simp add: string_list_def runs_ok_def)
qed

lemma wide_strings_tag:
  "dtfs_get_prop_type wide_strings (length wide_strings) False = Ret (DTFS_PROP_STRINGS, None)"
proof -
  have "length wide_strings \<noteq> 0" by (simp add: wide_strings_len)
  then show ?thesis
    by (simp add: dtfs_get_prop_type_def wide_strings_narrow wide_strings_printable)
qed

section \<open>The claims\<close>

text \<open>
  C1. For every buffer \<open>b\<close> shorter than \<open>2^31\<close> bytes (the lengths the \<^verbatim>\<open>int len\<close> of
  \<^verbatim>\<open>is_printable_string\<close> holds), \<^verbatim>\<open>dtfs_get_prop_type\<close> called on \<open>b\<close> and its length
  returns the tag of the first rule that matches: Simple when the length is 0; else
  Strings when \<open>b\<close> is a well-formed string list; else Words when the length is a multiple
  of 4; else Bytes. In particular a well-formed string list whose length is a multiple of
  4 is Strings, not Words. (\<open>string_list_iff_tiling\<close> above reads \<open>string_list\<close> as the tiling
  of the buffer by non-empty, printable, NUL-terminated runs.)
\<close>

theorem get_prop_type_rule_order:
  assumes "length b < 2 ^ 31"
  shows "map_exec fst (dtfs_get_prop_type b (length b) count) =
     Ret (if length b = 0 then DTFS_PROP_SIMPLE
          else if string_list b then DTFS_PROP_STRINGS
          else if length b mod 4 = 0 then DTFS_PROP_WORDS
          else DTFS_PROP_BYTES)
   \<and> (length b mod 4 = 0 \<and> string_list b \<longrightarrow>
        map_exec fst (dtfs_get_prop_type b (length b) count) = Ret DTFS_PROP_STRINGS)"
  by (simp add: get_prop_type_eq [OF assms] string_list_def)

theorem get_prop_type_rule_order_witness:
  "length [0x61, 0x62, 0x63, 0 :: byte] < 2 ^ 31 \<and>
   length [0x61, 0x62, 0x63, 0 :: byte] mod 4 = 0 \<and> string_list [0x61, 0x62, 0x63, 0] \<and>
   map_exec fst (dtfs_get_prop_type [0x61, 0x62, 0x63, 0] 4 True) = Ret DTFS_PROP_STRINGS"
proof -
  let ?b = "[0x61, 0x62, 0x63, 0] :: byte list"
  have l: "length ?b = 4" by simp
  have small: "length ?b < 2 ^ 31" by simp
  have s: "string_list ?b"
    by (simp add: string_list_def runs_ok_def runs_def isprint_def)
  have "length ?b mod 4 = 0 \<and> string_list ?b \<longrightarrow>
        map_exec fst (dtfs_get_prop_type ?b (length ?b) True) = Ret DTFS_PROP_STRINGS"
    using get_prop_type_rule_order [OF small, of True] by (rule conjunct2)
  then have "length ?b mod 4 = 0 \<and> string_list ?b \<longrightarrow>
        map_exec fst (dtfs_get_prop_type ?b 4 True) = Ret DTFS_PROP_STRINGS"
    unfolding l .
  with s l show ?thesis by simp
qed

text \<open>
  From \<open>2^31\<close> bytes on the rule order of C1 fails: \<open>wide_strings\<close> is \<^verbatim>\<open>abc\0\<close> followed by
  \<open>2^32\<close> NUL bytes. It is not a well-formed string list (its later runs are empty) and
  its length is a multiple of 4, so the rules give Words; \<^verbatim>\<open>is_printable_string\<close> receives
  the length narrowed to 4, sees \<^verbatim>\<open>abc\0\<close>, and the tag is Strings.
\<close>

theorem rule_order_counterexample:
  "length wide_strings \<noteq> 0 \<and> \<not> string_list wide_strings \<and> length wide_strings mod 4 = 0 \<and>
   map_exec fst (dtfs_get_prop_type wide_strings (length wide_strings) False) =
     Ret DTFS_PROP_STRINGS"
proof -
  have "length wide_strings mod 4 = 0" "length wide_strings \<noteq> 0"
    by (simp_all add: wide_strings_len)
  with wide_strings_not_list wide_strings_tag show ?thesis by simp
qed

text \<open>
  C2. The claim: \<^verbatim>\<open>dtfs_word_get\<close> fails when \<open>(n + 1) * 4\<close> exceeds the length. The code
  tests \<^verbatim>\<open>n * sizeof(uint32_t) > len\<close>, so the index equal to the count of words passes
  the test and \<^verbatim>\<open>w[n]\<close> reads the four bytes after the buffer. On the 4-byte buffer
  \<^verbatim>\<open>00 00 00 01\<close> (Words, count 1) and index 1 the call does not return \<open>-1\<close>: the read is
  outside the object, and when the memory after the buffer holds \<^verbatim>\<open>DE AD BE EF\<close> the call
  returns 0 with that word. (\<open>word_get_eq\<close> above gives the result for every buffer
  shorter than \<open>2^31\<close> bytes and every index: at every other index the code does what the
  claim says.)
\<close>

theorem word_get_index_at_count:
  "\<forall>host.
     dtfs_get_prop_type [0, 0, 0, 1] 4 True = Ret (DTFS_PROP_WORDS, Some 1) \<and>
     dtfs_word_get host [0, 0, 0, 1] 4 1 True = Undef \<and>
     dtfs_word_get host [0, 0, 0, 1, 0xDE, 0xAD, 0xBE, 0xEF] 4 1 True = Ret (0, Some 0xDEADBEEF)"
proof
  fix host
  have t: "dtfs_get_prop_type [0, 0, 0, 1] 4 c = Ret (DTFS_PROP_WORDS, if c then Some 1 else None)" for c
    by (simp add: dtfs_get_prop_type_def is_printable_string_def rd_int_def rd_def
        int_of_size_t_def unsigned_of_size_t_def)
  have t': "dtfs_get_prop_type [0, 0, 0, 1, 0xDE, 0xAD, 0xBE, 0xEF] 4 False = Ret (DTFS_PROP_WORDS, None)"
    by (simp add: dtfs_get_prop_type_def is_printable_string_def rd_int_def rd_def
        int_of_size_t_def)
  have v: "be32 0xDE 0xAD 0xBE 0xEF = 0xDEADBEEF"
    by (simp add: be32_def)
  show "dtfs_get_prop_type [0, 0, 0, 1] 4 True = Ret (DTFS_PROP_WORDS, Some 1) \<and>
     dtfs_word_get host [0, 0, 0, 1] 4 1 True = Undef \<and>
     dtfs_word_get host [0, 0, 0, 1, 0xDE, 0xAD, 0xBE, 0xEF] 4 1 True = Ret (0, Some 0xDEADBEEF)"
    by (simp add: dtfs_word_get_def t t' load_u32_def ntohl_load v)
qed

text \<open>
  C3. With a non-null \<^verbatim>\<open>count\<close> and a buffer shorter than \<open>2^31\<close> bytes,
  \<^verbatim>\<open>dtfs_get_prop_type\<close> writes: for the tag Strings, the number of segments of the
  NUL-terminated tiling of the buffer (there is one, and every one has that many
  segments); for Words, the length divided by 4; for Bytes, the length; for Simple
  (length 0) it writes nothing.
\<close>

theorem get_prop_type_count:
  assumes "length b < 2 ^ 31"
  shows "\<exists>t c. dtfs_get_prop_type b (length b) True = Ret (t, c) \<and>
     (t = DTFS_PROP_SIMPLE \<longrightarrow> length b = 0 \<and> c = None) \<and>
     (t = DTFS_PROP_STRINGS \<longrightarrow>
        (\<exists>rs. tiling rs b) \<and> (\<forall>rs. tiling rs b \<longrightarrow> c = Some (length rs))) \<and>
     (t = DTFS_PROP_WORDS \<longrightarrow> c = Some (length b div 4)) \<and>
     (t = DTFS_PROP_BYTES \<longrightarrow> c = Some (length b))"
proof (cases "b = []")
  case True
  then show ?thesis using prop_tags_distinct by (subst get_prop_type_eq [OF assms]) simp
next
  case False
  show ?thesis
  proof (cases "string_list b")
    case True
    then have "last b = 0" by (simp add: string_list_def)
    then have "tiling rs b \<longleftrightarrow> rs = runs b" for rs by (simp add: tiling_runs)
    with False True show ?thesis using prop_tags_distinct
      by (subst get_prop_type_eq [OF assms]) simp
  next
    case no: False
    with False show ?thesis using prop_tags_distinct
      by (subst get_prop_type_eq [OF assms]) simp
  qed
qed

theorem get_prop_type_count_witness:
  "length [0x61, 0, 0x62, 0 :: byte] < 2 ^ 31 \<and>
   dtfs_get_prop_type [] 0 True = Ret (DTFS_PROP_SIMPLE, None) \<and>
   tiling [[0x61], [0x62]] [0x61, 0, 0x62, 0] \<and>
   dtfs_get_prop_type [0x61, 0, 0x62, 0] 4 True = Ret (DTFS_PROP_STRINGS, Some 2) \<and>
   dtfs_get_prop_type [0, 0, 0, 1, 0, 0, 0, 2] 8 True = Ret (DTFS_PROP_WORDS, Some 2) \<and>
   dtfs_get_prop_type [1, 2, 3] 3 True = Ret (DTFS_PROP_BYTES, Some 3)"
proof -
  let ?s = "[0x61, 0, 0x62, 0] :: byte list"
  let ?w = "[0, 0, 0, 1, 0, 0, 0, 2] :: byte list"
  let ?y = "[1, 2, 3] :: byte list"
  let ?e = "[] :: byte list"
  have ls: "length ?s = 4" and lw: "length ?w = 8" and ly: "length ?y = 3"
    and le: "length ?e = 0" by simp_all
  have ks: "length ?s < 2 ^ 31" and kw: "length ?w < 2 ^ 31" and ky: "length ?y < 2 ^ 31"
    and ke: "length ?e < 2 ^ 31" by simp_all
  have ts: "map_exec fst (dtfs_get_prop_type ?s (length ?s) True) = Ret DTFS_PROP_STRINGS"
    by (subst get_prop_type_eq [OF ks])
       (simp add: string_list_def runs_ok_def runs_def isprint_def)
  have tw: "map_exec fst (dtfs_get_prop_type ?w (length ?w) True) = Ret DTFS_PROP_WORDS"
    by (subst get_prop_type_eq [OF kw]) (simp add: string_list_def)
  have ty: "map_exec fst (dtfs_get_prop_type ?y (length ?y) True) = Ret DTFS_PROP_BYTES"
    by (subst get_prop_type_eq [OF ky]) (simp add: string_list_def)
  have te: "map_exec fst (dtfs_get_prop_type ?e (length ?e) True) = Ret DTFS_PROP_SIMPLE"
    by (subst get_prop_type_eq [OF ke]) simp
  have til: "tiling [[0x61], [0x62]] ?s" by (simp add: tiling_def)
  have 1: "dtfs_get_prop_type ?s (length ?s) True = Ret (DTFS_PROP_STRINGS, Some 2)"
  proof -
    from get_prop_type_count [OF ks] obtain t c
      where r: "dtfs_get_prop_type ?s (length ?s) True = Ret (t, c)"
        and h: "t = DTFS_PROP_STRINGS \<longrightarrow>
                (\<exists>rs. tiling rs ?s) \<and> (\<forall>rs. tiling rs ?s \<longrightarrow> c = Some (length rs))"
      by blast
    from r ts have t: "t = DTFS_PROP_STRINGS" by simp
    with h til have "c = Some (length [[0x61 :: byte], [0x62]])" by blast
    with r t show ?thesis by simp
  qed
  have 2: "dtfs_get_prop_type ?w (length ?w) True = Ret (DTFS_PROP_WORDS, Some 2)"
  proof -
    from get_prop_type_count [OF kw] obtain t c
      where r: "dtfs_get_prop_type ?w (length ?w) True = Ret (t, c)"
        and h: "t = DTFS_PROP_WORDS \<longrightarrow> c = Some (length ?w div 4)"
      by blast
    from r tw have t: "t = DTFS_PROP_WORDS" by simp
    with h have "c = Some (length ?w div 4)" by blast
    with r t show ?thesis by simp
  qed
  have 3: "dtfs_get_prop_type ?y (length ?y) True = Ret (DTFS_PROP_BYTES, Some 3)"
  proof -
    from get_prop_type_count [OF ky] obtain t c
      where r: "dtfs_get_prop_type ?y (length ?y) True = Ret (t, c)"
        and h: "t = DTFS_PROP_BYTES \<longrightarrow> c = Some (length ?y)"
      by blast
    from r ty have t: "t = DTFS_PROP_BYTES" by simp
    with h have "c = Some (length ?y)" by blast
    with r t show ?thesis by simp
  qed
  have 4: "dtfs_get_prop_type ?e (length ?e) True = Ret (DTFS_PROP_SIMPLE, None)"
  proof -
    from get_prop_type_count [OF ke] obtain t c
      where r: "dtfs_get_prop_type ?e (length ?e) True = Ret (t, c)"
        and h: "t = DTFS_PROP_SIMPLE \<longrightarrow> length ?e = 0 \<and> c = None"
      by blast
    from r te have t: "t = DTFS_PROP_SIMPLE" by simp
    with h have "c = None" by blast
    with r t show ?thesis by simp
  qed
  from 1 2 3 4 til show ?thesis unfolding ls lw ly le by simp
qed

text \<open>
  From \<open>2^32\<close> bytes on the count of C3 fails: \<open>wide_bytes\<close> is \<open>2^32 + 1\<close> bytes \<^verbatim>\<open>01\<close>.
  The tag is Bytes and the length is stored in an \<^verbatim>\<open>unsigned\<close>: the count written is 1.
\<close>

theorem count_counterexample:
  "dtfs_get_prop_type wide_bytes (length wide_bytes) True = Ret (DTFS_PROP_BYTES, Some 1) \<and>
   length wide_bytes = 4294967297"
  by (simp add: dtfs_get_prop_type_def wide_bytes_def int_of_size_t_def unsigned_of_size_t_def
      is_printable_string_def rd_int_def rd_def)

text \<open>
  C4. With a non-null \<^verbatim>\<open>str\<close> and a buffer shorter than \<open>2^31\<close> bytes,
  \<^verbatim>\<open>dtfs_string_get\<close> fails exactly when the buffer does not classify as Strings or the
  index is not below the count of runs the classifier reports. Otherwise it returns 0 and
  a pointer to the first byte of the \<open>n\<close>-th run: the offset is inside the buffer and the C
  string there is that run. The witness is the buffer \<^verbatim>\<open>a\0b\0\<close>: index 0 gives \<^verbatim>\<open>a\<close>,
  index 1 gives \<^verbatim>\<open>b\<close>, index 2 fails.
\<close>

theorem string_get_iff:
  assumes "length b < 2 ^ 31"
    and "dtfs_get_prop_type b (length b) True = Ret (t, c)"
  shows "dtfs_string_get b (length b) n True =
           (if t = DTFS_PROP_STRINGS \<and> (\<exists>k. c = Some k \<and> n < k)
            then Ret (0, Some (run_start b n)) else Ret (- 1, None))
         \<and> (t = DTFS_PROP_STRINGS \<and> (\<exists>k. c = Some k \<and> n < k) \<longrightarrow>
              run_start b n < length b \<and> c_string b (run_start b n) = runs b ! n)"
proof (cases "string_list b")
  case True
  then have ne: "b \<noteq> []" and l: "last b = 0" by (simp_all add: string_list_def)
  with True assms have t: "t = DTFS_PROP_STRINGS" and c: "c = Some (length (runs b))"
    by (simp_all add: get_prop_type_eq)
  from l c_string_run [of b n] t c show ?thesis
    by (simp add: string_get_eq [OF assms(1)] True)
next
  case False
  with assms have "t \<noteq> DTFS_PROP_STRINGS" using prop_tags_distinct
    by (auto simp: get_prop_type_eq split: if_splits)
  with False show ?thesis by (simp add: string_get_eq [OF assms(1)])
qed

theorem string_get_iff_witness:
  "length [0x61, 0, 0x62, 0 :: byte] < 2 ^ 31 \<and>
   dtfs_get_prop_type [0x61, 0, 0x62, 0] 4 True = Ret (DTFS_PROP_STRINGS, Some 2) \<and>
   dtfs_string_get [0x61, 0, 0x62, 0] 4 0 True = Ret (0, Some 0) \<and>
   c_string [0x61, 0, 0x62, 0] 0 = [0x61] \<and>
   dtfs_string_get [0x61, 0, 0x62, 0] 4 1 True = Ret (0, Some 2) \<and>
   c_string [0x61, 0, 0x62, 0] 2 = [0x62] \<and>
   dtfs_string_get [0x61, 0, 0x62, 0] 4 2 True = Ret (- 1, None)"
proof -
  let ?s = "[0x61, 0, 0x62, 0] :: byte list"
  have ls: "length ?s = 4" by simp
  have bs: "length ?s < 2 ^ 31" by simp
  have r: "runs ?s = [[0x61], [0x62]]" by (simp add: runs_def)
  have c: "dtfs_get_prop_type ?s (length ?s) True = Ret (DTFS_PROP_STRINGS, Some 2)"
    by (subst get_prop_type_eq [OF bs])
       (simp add: string_list_def runs_ok_def r isprint_def)
  have s0: "run_start ?s 0 = 0" and s1: "run_start ?s 1 = 2"
    by (simp_all add: run_start_def r)
  from string_get_iff [OF bs c, of 0] s0 r
  have 0: "dtfs_string_get ?s (length ?s) 0 True = Ret (0, Some 0) \<and> c_string ?s 0 = [0x61]"
    by simp
  from string_get_iff [OF bs c, of 1] s1 r
  have 1: "dtfs_string_get ?s (length ?s) 1 True = Ret (0, Some 2) \<and> c_string ?s 2 = [0x62]"
    by simp
  from string_get_iff [OF bs c, of 2]
  have 2: "dtfs_string_get ?s (length ?s) 2 True = Ret (- 1, None)"
    by simp
  from c 0 1 2 show ?thesis unfolding ls by simp
qed

text \<open>
  From \<open>2^31\<close> bytes on C4 fails: on \<open>wide_strings\<close> the classifier reports Strings with
  the count 1 (the \<open>2^32 + 1\<close> steps of its counting loop wrap the \<^verbatim>\<open>unsigned\<close>), and
  \<^verbatim>\<open>dtfs_string_get\<close> at the index 1, which is not below that count, returns 0 with a
  pointer to offset 4.
\<close>

theorem string_get_counterexample:
  "dtfs_get_prop_type wide_strings (length wide_strings) True = Ret (DTFS_PROP_STRINGS, Some 1) \<and>
   dtfs_string_get wide_strings (length wide_strings) 1 True = Ret (0, Some 4)"
proof -
  have ne: "length wide_strings \<noteq> 0" by (simp add: wide_strings_len)
  have sl: "strlen (drop 0 wide_strings) = Ret 3" by (simp add: wide_strings_def)
  have lt: "(0::nat) + 3 + 1 < length wide_strings" by (simp add: wide_strings_len)
  have dr: "drop (0 + 3 + 1) wide_strings = replicate (length wide_strings - (0 + 3 + 1)) 0"
    by (simp add: wide_strings_def)
  have "count_loop wide_strings (length wide_strings) 0 0 =
        count_loop wide_strings (length wide_strings) (0 + 3 + 1) (unsigned_inc 0)"
    by (subst count_loop.simps) (simp only: sl exec.case lt if_True)
  also have "\<dots> = Ret ((unsigned_inc 0 + (length wide_strings - (0 + 3 + 1))) mod 2 ^ 32)"
    using lt dr by (rule count_loop_zeros)
  also have "\<dots> = Ret 1" by (simp add: unsigned_inc_def wide_strings_len)
  finally have cnt: "count_loop wide_strings (length wide_strings) 0 0 = Ret 1" .
  have tag: "dtfs_get_prop_type wide_strings (length wide_strings) True =
             Ret (DTFS_PROP_STRINGS, Some 1)"
    using ne
    by (simp add: dtfs_get_prop_type_def wide_strings_narrow wide_strings_printable cnt
        del: count_loop.simps)
  have "string_loop wide_strings (length wide_strings) 1 0 0 =
        string_loop wide_strings (length wide_strings) 1 (0 + 3 + 1) (unsigned_inc 0)"
    by (subst string_loop.simps) (simp only: sl exec.case lt if_True zero_neq_one if_False)
  also have "\<dots> = Ret (0, Some 4)"
    by (subst string_loop.simps) (simp add: unsigned_inc_def)
  finally have "string_loop wide_strings (length wide_strings) 1 0 0 = Ret (0, Some 4)" .
  with wide_strings_tag have get: "dtfs_string_get wide_strings (length wide_strings) 1 True =
                  Ret (0, Some 4)"
    by (simp add: dtfs_string_get_def)
  from tag get show ?thesis by simp
qed

text \<open>
  C5. The claim: \<^verbatim>\<open>dtfs_list_node\<close> returns a failure indicator when the directory
  cannot be opened. The code prints a diagnostic in that branch and falls through to
  \<^verbatim>\<open>return 0\<close>: on a path that does not exist in the store (the path classifier answers
  \<open>-1\<close> for it) the call with a visitor returns 0, having called the visitor never.
  (\<open>list_node_join_fails\<close> above: when the join fails the call does return \<open>-1\<close>;
  \<open>list_node_open_fails\<close>: it returns 0 whenever the open fails.)
\<close>

theorem list_node_open_failure_returns_0:
  "dtfs_concat_path sample_store (Some ''/proc/device-tree'') None =
     Ret (Some ''/proc/device-tree'') \<and>
   opendir sample_store ''/proc/device-tree'' = None \<and>
   dtfs_check_path sample_store (Some ''/proc/device-tree'') None = Ret (- 1) \<and>
   dtfs_list_node sample_store (Some ''/proc/device-tree'') None (Some log_child) [] = Ret (0, [])"
  by (simp add: dtfs_list_node_def dtfs_check_path_def dtfs_concat_path_def sample_store_def)

text \<open>
  C6. \<^verbatim>\<open>dtfs_prop_get\<close> with a visitor, on a path that joins to \<open>str\<close> where the store
  holds a regular file of content \<open>buf\<close> (its \<^verbatim>\<open>st_size\<close> is the length of \<open>buf\<close>, and for a
  non-empty \<open>buf\<close> the file opens, delivers \<open>buf\<close> and the buffer is allocated): the path
  classifies as a property, the call returns 0, and the state after it is the visitor
  applied once, to \<open>str\<close>, a null buffer and 0 when \<open>buf\<close> is empty, to \<open>str\<close>, \<open>buf\<close> and its
  length otherwise. With the recording visitor the record is that single call.
\<close>

theorem prop_get_visits_once:
  assumes join: "dtfs_concat_path e base path = Ret (Some str)"
    and st: "stat e str = Some s" "st_mode s = Regular" "st_size s = int (length buf)"
    and rd: "buf \<noteq> [] \<Longrightarrow> fopen e str = Some buf \<and> malloc e (length buf)"
  shows "dtfs_check_path e base path = Ret DTFS_PATH_PROPERTY \<and>
         dtfs_prop_get e base path (Some visit) priv =
           Ret (0, visit str (if buf = [] then None else Some buf) (length buf) priv) \<and>
         dtfs_prop_get e base path (Some log_prop) [] =
           Ret (0, [(str, if buf = [] then None else Some buf, length buf)])"
proof -
  from join st have cp: "dtfs_check_path e base path = Ret DTFS_PATH_PROPERTY"
    by (auto simp: check_path_property)
  from join obtain b where b: "base = Some b" by (cases base) (auto simp: dtfs_concat_path_def)
  have g: "dtfs_prop_get e base path (Some v) p =
           Ret (0, v str (if buf = [] then None else Some buf) (length buf) p)" for v and p :: 'b
  proof (cases "buf = []")
    case True
    with cp b join st show ?thesis by (simp add: dtfs_prop_get_def)
  next
    case False
    with rd have "fopen e str = Some buf" "malloc e (length buf)" by simp_all
    with False cp b join st show ?thesis by (simp add: dtfs_prop_get_def)
  qed
  from cp g [of visit priv] g [of log_prop "[]"] show ?thesis by (simp add: log_prop_def)
qed

theorem prop_get_visits_once_witness:
  "dtfs_prop_get sample_store (Some ''/dt'') (Some ''ranges'') (Some log_prop) [] =
     Ret (0, [(''/dt/ranges'', None, 0)]) \<and>
   dtfs_prop_get sample_store (Some ''/dt'') (Some ''model'') (Some log_prop) [] =
     Ret (0, [(''/dt/model'', Some [0x61, 0], 2)])"
proof -
  let ?r = "\<lparr>st_mode = Regular, st_size = 0\<rparr>"
  let ?m = "\<lparr>st_mode = Regular, st_size = 2\<rparr>"
  let ?buf = "[0x61, 0] :: byte list"
  have j0: "dtfs_concat_path sample_store (Some ''/dt'') (Some ''ranges'') = Ret (Some ''/dt/ranges'')"
    and j1: "dtfs_concat_path sample_store (Some ''/dt'') (Some ''model'') = Ret (Some ''/dt/model'')"
    by (simp_all add: dtfs_concat_path_def sample_store_def cstr_nth_def)
  have s0: "stat sample_store ''/dt/ranges'' = Some ?r"
    and s1: "stat sample_store ''/dt/model'' = Some ?m"
    by (simp_all add: sample_store_def)
  have k0: "st_mode ?r = Regular" and z0: "st_size ?r = int (length ([] :: byte list))"
    and k1: "st_mode ?m = Regular" and z1: "st_size ?m = int (length ?buf)"
    by simp_all
  have r0: "([] :: byte list) \<noteq> [] \<Longrightarrow>
            fopen sample_store ''/dt/ranges'' = Some [] \<and> malloc sample_store (length ([] :: byte list))"
    by simp
  have r1: "?buf \<noteq> [] \<Longrightarrow>
            fopen sample_store ''/dt/model'' = Some ?buf \<and> malloc sample_store (length ?buf)"
    by (simp add: sample_store_def)
  from prop_get_visits_once [OF j0 s0 k0 z0 r0, of log_prop "[]"]
  have 0: "dtfs_prop_get sample_store (Some ''/dt'') (Some ''ranges'') (Some log_prop) [] =
           Ret (0, [(''/dt/ranges'', None, 0)])"
    by (simp add: log_prop_def)
  from prop_get_visits_once [OF j1 s1 k1 z1 r1, of log_prop "[]"]
  have 1: "dtfs_prop_get sample_store (Some ''/dt'') (Some ''model'') (Some log_prop) [] =
           Ret (0, [(''/dt/model'', Some [0x61, 0], 2)])"
    by (simp add: numeral_2_eq_2 log_prop_def)
  from 0 1 show ?thesis by simp
qed



text \<open>
  C8. The claim: \<^verbatim>\<open>dtfs_concat_path\<close> returns nothing when the base is absent. The code
  tests \<^verbatim>\<open>!base\<close> only after \<^verbatim>\<open>strlen(base)\<close> has been evaluated, in the initialiser of
  \<^verbatim>\<open>len_base\<close>: on a null base the behaviour is undefined, the call does not return null.
  (\<open>concat_path_empty\<close> and \<open>concat_path_joins\<close> above: an empty base gives null, and a
  non-empty base is joined as the claim says when the allocation succeeds.)
\<close>

theorem concat_path_null_base:
  "\<forall>e path. dtfs_concat_path e None path = Undef \<and> dtfs_concat_path e None path \<noteq> Ret None"
  by (simp add: dtfs_concat_path_def)

text \<open>
  C9. On every buffer shorter than \<open>2^31\<close> bytes \<^verbatim>\<open>dtfs_get_prop_type\<close> returns, and what
  it returns is one of the four tags; and on no buffer at all does it return the \<open>-1\<close> of
  its header's comment.
\<close>

theorem get_prop_type_never_fails:
  "(length b < 2 ^ 31 \<longrightarrow>
      (\<exists>t c. dtfs_get_prop_type b (length b) count = Ret (t, c) \<and>
         t \<in> {DTFS_PROP_SIMPLE, DTFS_PROP_STRINGS, DTFS_PROP_WORDS, DTFS_PROP_BYTES} \<and>
         t \<noteq> - 1)) \<and>
   (\<forall>c. dtfs_get_prop_type b (length b) count \<noteq> Ret (- 1, c))"
proof
  show "length b < 2 ^ 31 \<longrightarrow>
      (\<exists>t c. dtfs_get_prop_type b (length b) count = Ret (t, c) \<and>
         t \<in> {DTFS_PROP_SIMPLE, DTFS_PROP_STRINGS, DTFS_PROP_WORDS, DTFS_PROP_BYTES} \<and>
         t \<noteq> - 1)"
    by (simp add: get_prop_type_eq DTFS_PROP_SIMPLE_def DTFS_PROP_STRINGS_def
        DTFS_PROP_WORDS_def DTFS_PROP_BYTES_def)
  show "\<forall>c. dtfs_get_prop_type b (length b) count \<noteq> Ret (- 1, c)"
    by (auto simp: dtfs_get_prop_type_def DTFS_PROP_SIMPLE_def DTFS_PROP_STRINGS_def
        DTFS_PROP_WORDS_def DTFS_PROP_BYTES_def split: exec.splits if_splits)
qed

theorem get_prop_type_never_fails_witness:
  "length [0 :: byte] < 2 ^ 31 \<and>
   (\<exists>t c. dtfs_get_prop_type [0] 1 True = Ret (t, c) \<and>
      t \<in> {DTFS_PROP_SIMPLE, DTFS_PROP_STRINGS, DTFS_PROP_WORDS, DTFS_PROP_BYTES} \<and> t \<noteq> - 1)"
proof -
  have b: "length [0 :: byte] < 2 ^ 31" by simp
  have l: "length [0 :: byte] = 1" by simp
  from get_prop_type_never_fails [of "[0]" True] b
  have "\<exists>t c. dtfs_get_prop_type [0] (length [0 :: byte]) True = Ret (t, c) \<and>
      t \<in> {DTFS_PROP_SIMPLE, DTFS_PROP_STRINGS, DTFS_PROP_WORDS, DTFS_PROP_BYTES} \<and> t \<noteq> - 1"
    by blast
  then show ?thesis unfolding l using b by simp
qed

text \<open>
  From \<open>2^31\<close> bytes on the call need not return: \<open>negative_len\<close> is \<open>2^31 + 1\<close> NUL bytes,
  its length narrows to a negative \<^verbatim>\<open>int\<close>, and \<^verbatim>\<open>s[len - 1]\<close> is a read before the
  buffer.
\<close>

theorem never_fails_counterexample:
  "dtfs_get_prop_type negative_len (length negative_len) False = Undef"
  by (simp add: dtfs_get_prop_type_def negative_len_def int_of_size_t_def
      is_printable_string_def rd_int_def)

text \<open>
  C10. With a null visitor \<^verbatim>\<open>dtfs_list_node\<close> and \<^verbatim>\<open>dtfs_prop_get\<close> return 0 and leave
  the state as it was, whatever the store, the base and the path are (a null base
  included): the store is not consulted.
\<close>

theorem null_visitor_returns_0:
  "dtfs_list_node e base node_path None priv = Ret (0, priv) \<and>
   dtfs_prop_get e' base' path None priv' = Ret (0, priv')"
  by (simp add: dtfs_list_node_def dtfs_prop_get_def)

end
